theory Spec2Isabelle
  imports Main "HOL-Library.Word"
begin

section \<open>Events and the event queue (framework/pt\_thread.h)\<close>

text \<open>
  \<^verbatim>\<open>size_t\<close> and \<^verbatim>\<open>uint32_t\<close> are 32 bits wide on the target (RP2040), so both are
  \<open>32 word\<close>: \<open>+\<close> and \<open>-\<close> wrap around as the C++ operators do.
\<close>

datatype PTEventType =
    NONE | ENCODER_TURN | BUTTON_PRESS | BUTTON_RELEASE | GATE_RISING | GATE_FALLING
  | TIMER_TICK | ADC_READY | SCREEN_REFRESH | SEQUENCE_STEP | CV_CHANGE | USER_EVENT

record PTEvent =
  type :: PTEventType
  data :: "32 word"
  timestamp :: "32 word"
  processed :: bool

text \<open>The default constructor \<^verbatim>\<open>PTEvent()\<close>.\<close>

definition PTEvent_default :: PTEvent where
  "PTEvent_default = \<lparr>type = NONE, data = 0, timestamp = 0, processed = False\<rparr>"

text \<open>
  \<^verbatim>\<open>PTEvent(t, d)\<close> stamps the event with \<^verbatim>\<open>time_us_32()\<close>; the reading of the timer is
  the argument \<open>now\<close>.
\<close>

definition PTEvent_make :: "PTEventType \<Rightarrow> 32 word \<Rightarrow> 32 word \<Rightarrow> PTEvent" where
  "PTEvent_make t d now = \<lparr>type = t, data = d, timestamp = now, processed = False\<rparr>"

definition MAX_EVENTS :: "32 word" where
  "MAX_EVENTS = 32"

text \<open>
  \<^verbatim>\<open>std::array<PTEvent, MAX_EVENTS> events\<close> is a list; \<open>head\<close>, \<open>tail\<close> and \<open>count\<close> are
  the three \<^verbatim>\<open>volatile size_t\<close> members.
\<close>

record PTEventQueue =
  events :: "PTEvent list"
  head :: "32 word"
  tail :: "32 word"
  count :: "32 word"

text \<open>The constructor: the array holds default events, the three indices are 0.\<close>

definition PTEventQueue_init :: PTEventQueue where
  "PTEventQueue_init =
     \<lparr>events = replicate (unat MAX_EVENTS) PTEvent_default, head = 0, tail = 0, count = 0\<rparr>"

text \<open>
  \<^verbatim>\<open>bool push(const PTEvent &event)\<close>. The pair of \<^verbatim>\<open>save_and_disable_interrupts\<close> and
  \<^verbatim>\<open>restore_interrupts\<close> has no effect on a sequential run and is left out. A write at an
  index outside the array (undefined in C++, and impossible while \<open>head < MAX_EVENTS\<close>)
  leaves the list as it is.
\<close>

definition push :: "PTEvent \<Rightarrow> PTEventQueue \<Rightarrow> bool \<times> PTEventQueue" where
  "push event q =
     (if count q \<ge> MAX_EVENTS then (False, q)
      else (True, q\<lparr>events := (events q)[unat (head q) := event],
                     head := (head q + 1) mod MAX_EVENTS,
                     count := count q + 1\<rparr>))"

text \<open>
  \<^verbatim>\<open>bool pop(PTEvent &event)\<close>: the reference parameter is passed in and returned; on
  failure it comes back untouched.
\<close>

definition pop :: "PTEvent \<Rightarrow> PTEventQueue \<Rightarrow> bool \<times> PTEvent \<times> PTEventQueue" where
  "pop event q =
     (if count q = 0 then (False, event, q)
      else (True, events q ! unat (tail q),
            q\<lparr>tail := (tail q + 1) mod MAX_EVENTS, count := count q - 1\<rparr>))"

definition isEmpty :: "PTEventQueue \<Rightarrow> bool" where
  "isEmpty q = (count q = 0)"

definition size_q :: "PTEventQueue \<Rightarrow> 32 word" where
  "size_q q = count q"

definition clear :: "PTEventQueue \<Rightarrow> PTEventQueue" where
  "clear q = q\<lparr>head := 0, tail := 0, count := 0\<rparr>"

subsection \<open>Sequences of queue operations\<close>

text \<open>
  A caller's sequence of \<^verbatim>\<open>push\<close> and \<^verbatim>\<open>pop\<close> calls. \<open>run_ops\<close> gives the queue after the
  calls, \<open>pushes_ok\<close> and \<open>pops_ok\<close> count the calls that returned true, \<open>accepted\<close> lists
  the events of the pushes that returned true and \<open>delivered\<close> the events the pops that
  returned true wrote to their reference parameter.
\<close>

datatype queue_op = Push PTEvent | Pop

fun run_ops :: "queue_op list \<Rightarrow> PTEventQueue \<Rightarrow> PTEventQueue" where
  "run_ops [] q = q"
| "run_ops (Push e # ops) q = run_ops ops (snd (push e q))"
| "run_ops (Pop # ops) q = run_ops ops (snd (snd (pop PTEvent_default q)))"

fun pushes_ok :: "queue_op list \<Rightarrow> PTEventQueue \<Rightarrow> nat" where
  "pushes_ok [] q = 0"
| "pushes_ok (Push e # ops) q =
     (if fst (push e q) then 1 else 0) + pushes_ok ops (snd (push e q))"
| "pushes_ok (Pop # ops) q = pushes_ok ops (snd (snd (pop PTEvent_default q)))"

fun pops_ok :: "queue_op list \<Rightarrow> PTEventQueue \<Rightarrow> nat" where
  "pops_ok [] q = 0"
| "pops_ok (Push e # ops) q = pops_ok ops (snd (push e q))"
| "pops_ok (Pop # ops) q =
     (if fst (pop PTEvent_default q) then 1 else 0)
       + pops_ok ops (snd (snd (pop PTEvent_default q)))"

fun accepted :: "queue_op list \<Rightarrow> PTEventQueue \<Rightarrow> PTEvent list" where
  "accepted [] q = []"
| "accepted (Push e # ops) q =
     (if fst (push e q) then [e] else []) @ accepted ops (snd (push e q))"
| "accepted (Pop # ops) q = accepted ops (snd (snd (pop PTEvent_default q)))"

fun delivered :: "queue_op list \<Rightarrow> PTEventQueue \<Rightarrow> PTEvent list" where
  "delivered [] q = []"
| "delivered (Push e # ops) q = delivered ops (snd (push e q))"
| "delivered (Pop # ops) q =
     (if fst (pop PTEvent_default q) then [fst (snd (pop PTEvent_default q))] else [])
       @ delivered ops (snd (snd (pop PTEvent_default q)))"

text \<open>
  The invariant of the ring buffer, and the unread events it stands for, oldest first.
\<close>

definition queue_inv :: "PTEventQueue \<Rightarrow> bool" where
  "queue_inv q \<longleftrightarrow>
     length (events q) = unat MAX_EVENTS \<and> tail q < MAX_EVENTS \<and> count q \<le> MAX_EVENTS \<and>
     unat (head q) = (unat (tail q) + unat (count q)) mod unat MAX_EVENTS"

definition unread :: "PTEventQueue \<Rightarrow> PTEvent list" where
  "unread q =
     map (\<lambda>k. events q ! ((unat (tail q) + k) mod unat MAX_EVENTS)) [0 ..< unat (count q)]"

section \<open>Protothread primitives (protothreads/pt.h, protothreads/lc.h)\<close>

text \<open>
  \<^verbatim>\<open>typedef int lc_t\<close> and \<^verbatim>\<open>struct pt { lc_t lc; }\<close>. The continuation holds the source
  line of the last suspension point; no arithmetic is done on it.
\<close>

type_synonym lc_t = int

record pt =
  lc :: lc_t

definition PT_WAITING :: int where "PT_WAITING = 0"
definition PT_YIELDED :: int where "PT_YIELDED = 1"
definition PT_EXITED :: int where "PT_EXITED = 2"
definition PT_ENDED :: int where "PT_ENDED = 3"

definition PT_INIT :: "pt \<Rightarrow> pt" where
  "PT_INIT p = p\<lparr>lc := 0\<rparr>"

text \<open>
  What a thread body can reach while it runs: the members of its own (derived) class
  \<open>this\<close>, its continuation \<open>cont\<close> (through \<^verbatim>\<open>getPT()\<close>), and the event queue its
  \<^verbatim>\<open>event_queue\<close> pointer refers to (\<open>None\<close> when the pointer is null). The members
  \<^verbatim>\<open>active\<close>, \<^verbatim>\<open>run_count\<close> and \<^verbatim>\<open>last_run_time\<close> are private to \<^verbatim>\<open>PTThread\<close>.
\<close>

record 'u frame =
  this :: 'u
  cont :: pt
  evq :: "PTEventQueue option"

text \<open>
  A straight-line thread body between \<^verbatim>\<open>PT_BEGIN\<close> and \<^verbatim>\<open>PT_END\<close>: ordinary statements
  on the members, and the macros of pt.h. \<^verbatim>\<open>PT_WAIT_UNTIL\<close> and \<^verbatim>\<open>PT_YIELD\<close> carry the
  value of \<^verbatim>\<open>__LINE__\<close> at their place in the source, which is both what they store in
  \<open>lc\<close> and their \<^verbatim>\<open>case\<close> label.
\<close>

datatype 'u stmt =
    Stmt "'u \<Rightarrow> 'u"
  | PT_WAIT_UNTIL lc_t "'u \<Rightarrow> bool"
  | PT_YIELD lc_t
  | PT_EXIT

text \<open>
  Sequential execution from a place in the body. The expansions are
  \<^item> \<^verbatim>\<open>PT_WAIT_UNTIL\<close>: \<^verbatim>\<open>lc = __LINE__; case __LINE__: if (!(condition)) return PT_WAITING;\<close>
  \<^item> \<^verbatim>\<open>PT_YIELD\<close>: \<^verbatim>\<open>lc = __LINE__; case __LINE__: return PT_YIELDED;\<close>
  \<^item> \<^verbatim>\<open>PT_EXIT\<close>: \<^verbatim>\<open>return PT_EXITED\<close>
  \<^item> \<^verbatim>\<open>PT_END\<close> (the end of the list): \<^verbatim>\<open>} lc = 0; return PT_ENDED;\<close>
\<close>

fun run_from :: "'u stmt list \<Rightarrow> 'u frame \<Rightarrow> int \<times> 'u frame" where
  "run_from [] fr = (PT_ENDED, fr\<lparr>cont := (cont fr)\<lparr>lc := 0\<rparr>\<rparr>)"
| "run_from (Stmt g # rest) fr = run_from rest (fr\<lparr>this := g (this fr)\<rparr>)"
| "run_from (PT_WAIT_UNTIL line cond # rest) fr =
     (let fr' = fr\<lparr>cont := (cont fr)\<lparr>lc := line\<rparr>\<rparr>
      in if \<not> cond (this fr') then (PT_WAITING, fr') else run_from rest fr')"
| "run_from (PT_YIELD line # rest) fr = (PT_YIELDED, fr\<lparr>cont := (cont fr)\<lparr>lc := line\<rparr>\<rparr>)"
| "run_from (PT_EXIT # rest) fr = (PT_EXITED, fr)"

text \<open>
  The \<^verbatim>\<open>switch\<close> of \<^verbatim>\<open>PT_BEGIN\<close> with a non-zero \<open>lc\<close>: control enters at the \<^verbatim>\<open>case\<close> label
  equal to \<open>lc\<close>, that is after the assignment to \<open>lc\<close> and before the test or the
  \<^verbatim>\<open>return\<close> of the macro. With no matching label the \<^verbatim>\<open>switch\<close> is skipped and the tail
  of \<^verbatim>\<open>PT_END\<close> runs.
\<close>

fun jump_to :: "lc_t \<Rightarrow> 'u stmt list \<Rightarrow> 'u frame \<Rightarrow> int \<times> 'u frame" where
  "jump_to l [] fr = run_from [] fr"
| "jump_to l (Stmt g # rest) fr = jump_to l rest fr"
| "jump_to l (PT_WAIT_UNTIL line cond # rest) fr =
     (if l = line then (if \<not> cond (this fr) then (PT_WAITING, fr) else run_from rest fr)
      else jump_to l rest fr)"
| "jump_to l (PT_YIELD line # rest) fr =
     (if l = line then (PT_YIELDED, fr) else jump_to l rest fr)"
| "jump_to l (PT_EXIT # rest) fr = jump_to l rest fr"

text \<open>\<^verbatim>\<open>PT_BEGIN(pt) ... PT_END(pt)\<close>: \<^verbatim>\<open>switch (lc) { case 0: ... } lc = 0; return PT_ENDED;\<close>\<close>

definition PT_BEGIN_END :: "'u stmt list \<Rightarrow> 'u frame \<Rightarrow> int \<times> 'u frame" where
  "PT_BEGIN_END body fr =
     (if lc (cont fr) = 0 then run_from body fr else jump_to (lc (cont fr)) body fr)"

text \<open>
  The members of the thread class of the suspend/resume scenario, and its body
  \<^verbatim>\<open>PT_BEGIN; flag1 = true; PT_WAIT_UNTIL(x); flag2 = true; PT_END\<close> (\<open>x_cond\<close> is the member \<^verbatim>\<open>x\<close>), the wait standing on
  source line \<open>l\<close>; and the same body with \<^verbatim>\<open>PT_YIELD\<close> in place of the wait.
\<close>

record flags =
  flag1 :: bool
  flag2 :: bool
  x_cond :: bool

definition wait_body :: "lc_t \<Rightarrow> flags frame \<Rightarrow> int \<times> flags frame" where
  "wait_body l =
     PT_BEGIN_END [Stmt (\<lambda>u. u\<lparr>flag1 := True\<rparr>), PT_WAIT_UNTIL l x_cond, Stmt (\<lambda>u. u\<lparr>flag2 := True\<rparr>)]"

definition yield_body :: "lc_t \<Rightarrow> flags frame \<Rightarrow> int \<times> flags frame" where
  "yield_body l =
     PT_BEGIN_END [Stmt (\<lambda>u. u\<lparr>flag1 := True\<rparr>), PT_YIELD l, Stmt (\<lambda>u. u\<lparr>flag2 := True\<rparr>)]"

section \<open>PTThread (framework/pt\_thread.h)\<close>

text \<open>
  A thread's \<^verbatim>\<open>event_queue\<close> pointer is null or, after \<^verbatim>\<open>addThread\<close>, the address of the
  scheduler's \<^verbatim>\<open>global_event_queue\<close>.
\<close>

datatype queue_ptr = null_queue | global_queue

text \<open>
  The hardware timer as the stream of its future readings: \<^verbatim>\<open>time_us_32()\<close> returns the
  first and leaves the rest.
\<close>

type_synonym timer = "nat \<Rightarrow> 32 word"

definition time_us_32 :: "timer \<Rightarrow> 32 word \<times> timer" where
  "time_us_32 clk = (clk 0, \<lambda>n. clk (Suc n))"

text \<open>
  The object of a class derived from \<^verbatim>\<open>PTThread\<close>: the base members, the members the
  derived class adds, and its override of the virtual \<^verbatim>\<open>run()\<close>.
\<close>

record 'u PTThread =
  thread_pt :: pt
  active :: bool
  name :: string
  last_run_time :: "32 word"
  run_count :: "32 word"
  event_queue :: queue_ptr
  members :: 'u
  run :: "'u frame \<Rightarrow> int \<times> 'u frame"

definition PTThread_init ::
  "string \<Rightarrow> 'u \<Rightarrow> ('u frame \<Rightarrow> int \<times> 'u frame) \<Rightarrow> 'u PTThread" where
  "PTThread_init thread_name u body =
     \<lparr>thread_pt = PT_INIT \<lparr>lc = 0\<rparr>, active = True, name = thread_name, last_run_time = 0,
      run_count = 0, event_queue = null_queue, members = u, run = body\<rparr>"

text \<open>
  \<^verbatim>\<open>int execute()\<close>. The argument \<open>q\<close> is the queue behind the thread's \<^verbatim>\<open>event_queue\<close>
  pointer; the thread, that queue and the timer are returned as the call leaves them.
\<close>

definition execute ::
  "'u PTThread \<Rightarrow> PTEventQueue option \<Rightarrow> timer
     \<Rightarrow> int \<times> 'u PTThread \<times> PTEventQueue option \<times> timer" where
  "execute th q clk =
     (if \<not> active th then (PT_EXITED, th, q, clk)
      else
        let (now, clk') = time_us_32 clk;
            th1 = th\<lparr>last_run_time := now\<rparr>;
            (result, fr) = run th1 \<lparr>this = members th1, cont = thread_pt th1, evq = q\<rparr>;
            th2 = th1\<lparr>members := this fr, thread_pt := cont fr, run_count := run_count th1 + 1\<rparr>;
            th3 = (if result = PT_ENDED \<or> result = PT_EXITED then th2\<lparr>active := False\<rparr> else th2)
        in (result, th3, evq fr, clk'))"

definition init :: "'u PTThread \<Rightarrow> 'u PTThread" where
  "init th = th\<lparr>thread_pt := PT_INIT (thread_pt th), active := True, run_count := 0\<rparr>"

definition stop :: "'u PTThread \<Rightarrow> 'u PTThread" where
  "stop th = th\<lparr>active := False\<rparr>"

definition isActive :: "'u PTThread \<Rightarrow> bool" where
  "isActive th = active th"

definition getRunCount :: "'u PTThread \<Rightarrow> 32 word" where
  "getRunCount th = run_count th"

definition getLastRunTime :: "'u PTThread \<Rightarrow> 32 word" where
  "getLastRunTime th = last_run_time th"

definition setEventQueue :: "queue_ptr \<Rightarrow> 'u PTThread \<Rightarrow> 'u PTThread" where
  "setEventQueue queue th = th\<lparr>event_queue := queue\<rparr>"

section \<open>PTScheduler (framework/pt\_thread.h)\<close>

definition MAX_THREADS :: "32 word" where
  "MAX_THREADS = 16"

text \<open>
  A \<^verbatim>\<open>PTThread *\<close> is an address, 0 the null pointer; the heap gives the object at each
  address. \<^verbatim>\<open>std::array<PTThread *, MAX_THREADS> threads\<close> is a list, and the constructor
  leaves its elements as they happen to be (\<open>arr\<close>).
\<close>

type_synonym thread_ptr = nat

type_synonym 'u heap = "thread_ptr \<Rightarrow> 'u PTThread"

record PTScheduler =
  threads :: "thread_ptr list"
  thread_count :: "32 word"
  global_event_queue :: PTEventQueue
  scheduler_ticks :: "32 word"
  running :: bool

definition PTScheduler_init :: "thread_ptr list \<Rightarrow> PTScheduler" where
  "PTScheduler_init arr =
     \<lparr>threads = arr, thread_count = 0, global_event_queue = PTEventQueue_init,
      scheduler_ticks = 0, running = False\<rparr>"

definition addThread ::
  "thread_ptr \<Rightarrow> PTScheduler \<Rightarrow> 'u heap \<Rightarrow> bool \<times> PTScheduler \<times> 'u heap" where
  "addThread thread s h =
     (if thread_count s \<ge> MAX_THREADS \<or> thread = 0 then (False, s, h)
      else (True,
            s\<lparr>threads := (threads s)[unat (thread_count s) := thread],
               thread_count := thread_count s + 1\<rparr>,
            h(thread := setEventQueue global_queue (h thread))))"

lemma unat_Suc_less:
  fixes j n :: "32 word"
  assumes "j < n"
  shows "unat (j + 1) = Suc (unat j)"
proof -
  have "unat n < 2 ^ 32" using unsigned_less[of n] by simp
  moreover from assms have "unat j < unat n" by (simp add: word_less_nat_alt)
  ultimately have "unat j + 1 < 2 ^ 32" by simp
  then show ?thesis by (simp add: unat_word_ariths)
qed

text \<open>
  The inner loop of \<^verbatim>\<open>removeThread\<close>:
  \<^verbatim>\<open>for (size_t j = i; j < thread_count - 1; j++) threads[j] = threads[j + 1];\<close>
  with \<open>n\<close> the value of \<^verbatim>\<open>thread_count\<close>.
\<close>

function shift_left :: "32 word \<Rightarrow> 32 word \<Rightarrow> thread_ptr list \<Rightarrow> thread_ptr list" where
  "shift_left j n ts =
     (if j < n - 1 then shift_left (j + 1) n (ts[unat j := ts ! unat (j + 1)]) else ts)"
  by pat_completeness auto
termination
proof (relation "measure (\<lambda>(j, n, ts). unat (n - 1) - unat j)")
  show "wf (measure (\<lambda>(j, n, ts). unat (n - 1) - unat j))" by simp
next
  fix j n :: "32 word" and ts :: "thread_ptr list"
  assume a: "j < n - 1"
  then have "unat j < unat (n - 1)" by (simp add: word_less_nat_alt)
  then show "((j + 1, n, ts[unat j := ts ! unat (j + 1)]), (j, n, ts))
           \<in> measure (\<lambda>(j, n, ts). unat (n - 1) - unat j)"
    using unat_Suc_less[OF a] by simp
qed

text \<open>The outer loop of \<^verbatim>\<open>removeThread\<close>, from index \<open>i\<close> on, and the method itself.\<close>

function removeThread_loop :: "32 word \<Rightarrow> thread_ptr \<Rightarrow> PTScheduler \<Rightarrow> bool \<times> PTScheduler" where
  "removeThread_loop i thread s =
     (if i < thread_count s then
        (if threads s ! unat i = thread
         then (True, s\<lparr>threads := shift_left i (thread_count s) (threads s),
                        thread_count := thread_count s - 1\<rparr>)
         else removeThread_loop (i + 1) thread s)
      else (False, s))"
  by pat_completeness auto
termination
proof (relation "measure (\<lambda>(i, thread, s). unat (thread_count s) - unat i)")
  show "wf (measure (\<lambda>(i, thread, s). unat (thread_count s) - unat i))" by simp
next
  fix i :: "32 word" and thread :: thread_ptr and s :: PTScheduler
  assume a: "i < thread_count s"
  then have "unat i < unat (thread_count s)" by (simp add: word_less_nat_alt)
  then show "((i + 1, thread, s), (i, thread, s))
           \<in> measure (\<lambda>(i, thread, s). unat (thread_count s) - unat i)"
    using unat_Suc_less[OF a] by simp
qed

definition removeThread :: "thread_ptr \<Rightarrow> PTScheduler \<Rightarrow> bool \<times> PTScheduler" where
  "removeThread thread s = removeThread_loop 0 thread s"

text \<open>
  \<^verbatim>\<open>thread->execute()\<close> from inside the scheduler: the object is read from the heap, run
  with the queue its \<^verbatim>\<open>event_queue\<close> pointer refers to, and written back.
\<close>

definition queue_of :: "queue_ptr \<Rightarrow> PTScheduler \<Rightarrow> PTEventQueue option" where
  "queue_of p s = (case p of null_queue \<Rightarrow> None | global_queue \<Rightarrow> Some (global_event_queue s))"

definition queue_store :: "queue_ptr \<Rightarrow> PTEventQueue option \<Rightarrow> PTScheduler \<Rightarrow> PTScheduler" where
  "queue_store p q s =
     (case p of null_queue \<Rightarrow> s
      | global_queue \<Rightarrow> (case q of None \<Rightarrow> s | Some q' \<Rightarrow> s\<lparr>global_event_queue := q'\<rparr>))"

definition execute_at ::
  "thread_ptr \<Rightarrow> PTScheduler \<Rightarrow> 'u heap \<Rightarrow> timer \<Rightarrow> int \<times> PTScheduler \<times> 'u heap \<times> timer" where
  "execute_at thread s h clk =
     (let (result, th', q', clk') = execute (h thread) (queue_of (event_queue (h thread)) s) clk
      in (result, queue_store (event_queue (h thread)) q' s, h(thread := th'), clk'))"

lemma execute_at_sched:
  "execute_at thread s h clk = (result, s', h', clk') \<Longrightarrow>
     threads s' = threads s \<and> thread_count s' = thread_count s"
  by (auto simp: execute_at_def queue_store_def split: prod.splits queue_ptr.splits option.splits)

lemma removeThread_loop_count:
  "j \<le> i \<Longrightarrow> i < thread_count s \<Longrightarrow> threads s ! unat i = thread \<Longrightarrow>
     thread_count (snd (removeThread_loop j thread s)) = thread_count s - 1"
proof (induction j thread s rule: removeThread_loop.induct)
  case (1 j thread s)
  from "1.prems" have lt: "j < thread_count s" by simp
  show ?case
  proof (cases "threads s ! unat j = thread")
    case True
    with lt show ?thesis by (subst removeThread_loop.simps) simp
  next
    case False
    with "1.prems" have "j \<noteq> i" by auto
    with "1.prems"(1) have "j < i" by simp
    then have "j + 1 \<le> i" by (rule inc_le)
    with 1 lt False show ?thesis by (subst removeThread_loop.simps) simp
  qed
qed

lemma removeThread_count:
  "i < thread_count s \<Longrightarrow> threads s ! unat i = thread \<Longrightarrow>
     thread_count (snd (removeThread thread s)) = thread_count s - 1"
  unfolding removeThread_def by (rule removeThread_loop_count) simp_all

text \<open>
  The loop of \<^verbatim>\<open>runOnce\<close>, from index \<open>i\<close> on. After a removal the source decrements
  \<open>i\<close> (wrapping at 0) and the loop header increments it again. The last argument is not
  in the source: it records, in order, each call of \<^verbatim>\<open>thread->execute()\<close> the loop makes and
  the status it returned.
\<close>

type_synonym run_log = "(thread_ptr \<times> int) list"

function runOnce_loop ::
  "32 word \<Rightarrow> PTScheduler \<Rightarrow> 'u heap \<Rightarrow> timer \<Rightarrow> run_log
     \<Rightarrow> PTScheduler \<times> 'u heap \<times> timer \<times> run_log" where
  "runOnce_loop i s h clk log =
     (if i < thread_count s then
        (let thread = threads s ! unat i in
         if thread \<noteq> 0 \<and> isActive (h thread) then
           (case execute_at thread s h clk of (result, s', h', clk') \<Rightarrow>
              if result = PT_ENDED \<or> result = PT_EXITED
              then runOnce_loop (i - 1 + 1) (snd (removeThread thread s')) h' clk'
                     (log @ [(thread, result)])
              else runOnce_loop (i + 1) s' h' clk' (log @ [(thread, result)]))
         else runOnce_loop (i + 1) s h clk log)
      else (s, h, clk, log))"
  by pat_completeness auto
termination
proof (relation "measure (\<lambda>(i, s, h, clk, log). unat (thread_count s) - unat i)", goal_cases)
  case 1
  show ?case by simp
next
  case (2 i s h clk log thread r y s' y' h' clk')
  from 2 have e: "execute_at thread s h clk = (r, s', h', clk')" by simp
  from execute_at_sched[OF e] 2(1,2)
  have lt: "i < thread_count s'" and at: "threads s' ! unat i = thread" by simp_all
  from lt have nz: "thread_count s' \<noteq> 0" by auto
  from lt have "unat i < unat (thread_count s')" by (simp add: word_less_nat_alt)
  then show ?case
    using removeThread_count[OF lt at] execute_at_sched[OF e] unat_minus_one[OF nz] by simp
next
  case (3 i s h clk log thread r y s' y' h' clk')
  from 3 have e: "execute_at thread s h clk = (r, s', h', clk')" by simp
  from 3(1) have "unat i < unat (thread_count s)" by (simp add: word_less_nat_alt)
  then show ?case using execute_at_sched[OF e] unat_Suc_less[OF 3(1)] by simp
next
  case (4 i s h clk log thread)
  from 4(1) have "unat i < unat (thread_count s)" by (simp add: word_less_nat_alt)
  then show ?case using unat_Suc_less[OF 4(1)] by simp
qed

definition runOnce ::
  "PTScheduler \<Rightarrow> 'u heap \<Rightarrow> timer \<Rightarrow> PTScheduler \<times> 'u heap \<times> timer \<times> run_log" where
  "runOnce s h clk = runOnce_loop 0 (s\<lparr>scheduler_ticks := scheduler_ticks s + 1\<rparr>) h clk []"

definition getThreadCount :: "PTScheduler \<Rightarrow> 32 word" where
  "getThreadCount s = thread_count s"

text \<open>
  The registered threads, in dispatch order: the first \<open>thread_count\<close> entries of the
  array.
\<close>

definition thread_list :: "PTScheduler \<Rightarrow> thread_ptr list" where
  "thread_list s = take (unat (thread_count s)) (threads s)"

definition sched_inv :: "PTScheduler \<Rightarrow> bool" where
  "sched_inv s \<longleftrightarrow> length (threads s) = unat MAX_THREADS \<and> thread_count s \<le> MAX_THREADS"

section \<open>The event queue: theorems\<close>

lemma queue_inv_init: "queue_inv PTEventQueue_init"
  by (simp add: queue_inv_def PTEventQueue_init_def MAX_EVENTS_def)

lemma unat_MAX_EVENTS: "unat MAX_EVENTS = 32"
  by (simp add: MAX_EVENTS_def)

lemma unat_succ_mod:
  fixes h :: "32 word"
  shows "unat ((h + 1) mod MAX_EVENTS) = (unat h + 1) mod 32"
proof -
  have "unat ((h + 1) mod MAX_EVENTS) = ((unat h + 1) mod 2 ^ 32) mod 32"
    by (simp add: unat_mod unat_MAX_EVENTS unat_word_ariths)
  also have "\<dots> = (unat h + 1) mod 32"
    by (rule mod_mod_cancel) simp
  finally show ?thesis .
qed

lemma unat_count_succ:
  fixes c :: "32 word"
  assumes "c < MAX_EVENTS"
  shows "unat (c + 1) = unat c + 1"
proof -
  from assms have "unat c < 32" by (simp add: word_less_nat_alt unat_MAX_EVENTS)
  then show ?thesis by (simp add: unat_word_ariths)
qed

lemma unat_count_pred:
  fixes c :: "32 word"
  assumes "c \<noteq> 0"
  shows "unat (c - 1) = unat c - 1"
  using assms by (rule unat_minus_one)

lemma mod32_inj:
  fixes k c t :: nat
  assumes "k < c" "c < 32" "(t + k) mod 32 = (t + c) mod 32"
  shows False
proof -
  from assms(1) have le: "t + k \<le> t + c" by simp
  from assms(3) have "(t + c) mod 32 = (t + k) mod 32" by simp
  with le have "32 dvd (t + c) - (t + k)" by (simp only: mod_eq_dvd_iff_nat)
  then have "32 dvd c - k" by simp
  moreover from assms have "0 < c - k" "c - k < 32" by simp_all
  ultimately show False using nat_dvd_not_less by blast
qed

lemma push_ok:
  assumes "queue_inv q" "count q < MAX_EVENTS"
  shows "fst (push e q)" "queue_inv (snd (push e q))" "unread (snd (push e q)) = unread q @ [e]"
    "unat (count (snd (push e q))) = unat (count q) + 1"
proof -
  from assms(2) have nf: "\<not> MAX_EVENTS \<le> count q" by simp
  have c: "unat (count q) < 32" using assms(2) by (simp add: word_less_nat_alt unat_MAX_EVENTS)
  have t: "unat (tail q) < 32" using assms(1) by (simp add: queue_inv_def word_less_nat_alt unat_MAX_EVENTS)
  have h: "unat (head q) = (unat (tail q) + unat (count q)) mod 32"
    using assms(1) by (simp add: queue_inv_def unat_MAX_EVENTS)
  have l: "length (events q) = 32" using assms(1) by (simp add: queue_inv_def unat_MAX_EVENTS)
  show "fst (push e q)" using nf by (simp add: push_def)
  show cnt: "unat (count (snd (push e q))) = unat (count q) + 1"
    using nf by (simp add: push_def unat_count_succ[OF assms(2)])
  show "queue_inv (snd (push e q))"
    using nf assms(1) c h
    apply (simp add: push_def queue_inv_def unat_succ_mod unat_MAX_EVENTS unat_count_succ[OF assms(2)])
    apply (simp add: word_le_nat_alt unat_count_succ[OF assms(2)] unat_MAX_EVENTS mod_Suc_eq)
    done
  have neq: "\<And>k. k < unat (count q) \<Longrightarrow> unat (head q) \<noteq> (unat (tail q) + k) mod 32"
  proof
    fix k assume k: "k < unat (count q)" and e: "unat (head q) = (unat (tail q) + k) mod 32"
    from e h have "(unat (tail q) + k) mod 32 = (unat (tail q) + unat (count q)) mod 32" by simp
    with k c show False by (rule mod32_inj)
  qed
  show "unread (snd (push e q)) = unread q @ [e]"
    using nf l h neq
    by (simp add: push_def unread_def unat_count_succ[OF assms(2)] unat_MAX_EVENTS)
qed


lemma pop_ok:
  assumes "queue_inv q" "count q \<noteq> 0"
  shows "fst (pop ev q)" "fst (snd (pop ev q)) = hd (unread q)"
    "queue_inv (snd (snd (pop ev q)))" "unread (snd (snd (pop ev q))) = tl (unread q)"
    "unat (count (snd (snd (pop ev q)))) + 1 = unat (count q)"
proof -
  have c0: "0 < unat (count q)" using assms(2) by (simp add: unat_gt_0)
  have c: "unat (count q) \<le> 32"
    using assms(1) by (simp add: queue_inv_def word_le_nat_alt unat_MAX_EVENTS)
  have t: "unat (tail q) < 32"
    using assms(1) by (simp add: queue_inv_def word_less_nat_alt unat_MAX_EVENTS)
  have h: "unat (head q) = (unat (tail q) + unat (count q)) mod 32"
    using assms(1) by (simp add: queue_inv_def unat_MAX_EVENTS)
  have l: "length (events q) = 32" using assms(1) by (simp add: queue_inv_def unat_MAX_EVENTS)
  have cp: "unat (count q - 1) = unat (count q) - 1" using assms(2) by (rule unat_minus_one)
  show "fst (pop ev q)" using assms(2) by (simp add: pop_def)
  show "unat (count (snd (snd (pop ev q)))) + 1 = unat (count q)"
    using assms(2) c0 by (simp add: pop_def cp)
  have up: "[0 ..< unat (count q)] = 0 # map Suc [0 ..< unat (count q) - 1]"
    using c0 by (cases "unat (count q)") (simp_all add: upt_conv_Cons map_Suc_upt del: upt_Suc)
  show "fst (snd (pop ev q)) = hd (unread q)"
    using assms(2) t by (simp add: pop_def unread_def up unat_MAX_EVENTS)
  show "queue_inv (snd (snd (pop ev q)))"
  proof -
    have "(unat (tail q) + unat (count q)) mod 32 = ((unat (tail q) + 1) mod 32 + (unat (count q) - 1)) mod 32"
    proof -
      from c0 obtain c' where c': "unat (count q) = Suc c'" by (cases "unat (count q)") simp_all
      have "((unat (tail q) + 1) mod 32 + c') mod 32 = (unat (tail q) + 1 + c') mod 32"
        by (rule mod_add_left_eq)
      with c' show ?thesis by simp
    qed
    then show ?thesis
      using assms(2) assms(1) c h
      by (simp add: pop_def queue_inv_def unat_succ_mod unat_MAX_EVENTS cp word_less_nat_alt word_le_nat_alt)
  qed
  have "\<And>k. ((unat (tail q) + 1) mod 32 + k) mod 32 = (unat (tail q) + Suc k) mod 32"
    by (simp add: mod_add_left_eq)
  then show "unread (snd (snd (pop ev q))) = tl (unread q)"
    using assms(2) by (simp add: pop_def unread_def up cp unat_succ_mod unat_MAX_EVENTS)
qed

lemma push_full: "\<not> count q < MAX_EVENTS \<Longrightarrow> push e q = (False, q)"
  by (simp add: push_def)

lemma pop_empty: "count q = 0 \<Longrightarrow> pop ev q = (False, ev, q)"
  by (simp add: pop_def)

lemma unread_empty: "count q = 0 \<Longrightarrow> unread q = []"
  by (simp add: unread_def)

lemma length_unread: "length (unread q) = unat (count q)"
  by (simp add: unread_def)

lemma run_ops_inv: "queue_inv q \<Longrightarrow> queue_inv (run_ops ops q)"
proof (induction ops q rule: run_ops.induct)
  case (1 q) then show ?case by simp
next
  case (2 e ops q)
  then show ?case by (cases "count q < MAX_EVENTS") (simp_all add: push_ok push_full)
next
  case (3 ops q)
  then show ?case by (cases "count q = 0") (simp_all add: pop_ok pop_empty)
qed

lemma fifo_general:
  "queue_inv q \<Longrightarrow> unread q @ accepted ops q = delivered ops q @ unread (run_ops ops q)"
proof (induction ops q rule: run_ops.induct)
  case (1 q) then show ?case by simp
next
  case (2 e ops q)
  then show ?case by (cases "count q < MAX_EVENTS") (simp_all add: push_ok push_full)
next
  case (3 ops q)
  show ?case
  proof (cases "count q = 0")
    case True with 3 show ?thesis by (simp add: pop_empty)
  next
    case False
    then have "unread q \<noteq> []" using length_unread[of q] by (auto simp: unat_eq_0)
    then have "unread q @ accepted ops (snd (snd (pop PTEvent_default q)))
        = hd (unread q) # (tl (unread q) @ accepted ops (snd (snd (pop PTEvent_default q))))"
      by (cases "unread q") simp_all
    with False 3 show ?thesis by (simp add: pop_ok)
  qed
qed

lemma count_general:
  "queue_inv q \<Longrightarrow>
     unat (count (run_ops ops q)) + pops_ok ops q = unat (count q) + pushes_ok ops q"
proof (induction ops q rule: run_ops.induct)
  case (1 q) then show ?case by simp
next
  case (2 e ops q)
  then show ?case by (cases "count q < MAX_EVENTS") (simp_all add: push_ok push_full)
next
  case (3 ops q)
  show ?case
  proof (cases "count q = 0")
    case True with 3 show ?thesis by (simp add: pop_empty)
  next
    case False
    with 3 pop_ok(5)[OF "3.prems" False, of PTEvent_default] show ?thesis by (simp add: pop_ok)
  qed
qed


lemma delivered_pops:
  "queue_inv q \<Longrightarrow> n \<le> unat (count q) \<Longrightarrow> delivered (replicate n Pop) q = take n (unread q)"
proof (induction n arbitrary: q)
  case 0 then show ?case by simp
next
  case (Suc n)
  then have ne: "count q \<noteq> 0" by (auto simp: unat_eq_0)
  then have "unread q \<noteq> []" using length_unread[of q] by (auto simp: unat_eq_0)
  then have u: "unread q = hd (unread q) # tl (unread q)" by simp
  have "n \<le> unat (count (snd (snd (pop PTEvent_default q))))"
    using pop_ok(5)[OF Suc.prems(1) ne, of PTEvent_default] Suc.prems(2) by simp
  then have "delivered (replicate n Pop) (snd (snd (pop PTEvent_default q))) = take n (tl (unread q))"
    using Suc.IH[of "snd (snd (pop PTEvent_default q))"] Suc.prems(1) ne by (simp add: pop_ok)
  moreover have "take (Suc n) (unread q) = hd (unread q) # take n (tl (unread q))"
    by (subst u) simp
  ultimately show ?case using Suc.prems(1) ne by (simp add: pop_ok)
qed

lemma push_fst_iff: "fst (push e q) \<longleftrightarrow> count q < MAX_EVENTS"
  by (auto simp: push_def not_le)

text \<open>
  C5. A push on a full queue (count equal to the capacity) returns false and leaves
  head, tail, count and the buffer unchanged; a pop on an empty queue (count 0) returns
  false and leaves the queue, and the caller's event variable, unchanged.
\<close>

theorem push_full_pop_empty_unchanged:
  "(count q = MAX_EVENTS \<longrightarrow> push e q = (False, q)) \<and>
   (count q = 0 \<longrightarrow> pop ev q = (False, ev, q))"
  by (simp add: push_def pop_def)

theorem push_full_pop_empty_unchanged_witness:
  "count (PTEventQueue_init\<lparr>count := 32\<rparr>) = MAX_EVENTS \<and>
   push (PTEvent_make USER_EVENT 7 0) (PTEventQueue_init\<lparr>count := 32\<rparr>)
     = (False, PTEventQueue_init\<lparr>count := 32\<rparr>) \<and>
   count PTEventQueue_init = 0 \<and>
   pop PTEvent_default PTEventQueue_init = (False, PTEvent_default, PTEventQueue_init)"
  using push_full_pop_empty_unchanged
          [of "PTEventQueue_init\<lparr>count := 32\<rparr>" "PTEvent_make USER_EVENT 7 0"]
        push_full_pop_empty_unchanged [of PTEventQueue_init _ PTEvent_default]
  by (simp add: PTEventQueue_init_def MAX_EVENTS_def)

text \<open>
  C6. FIFO order. For every sequence of push and pop calls on a queue that starts empty,
  the events the successful pops return are, in order, the first of the events the
  successful pushes stored: pops return events in push order among the events that were
  not dropped. And when A, B and C are pushed in that order onto such a queue and all
  three pushes succeed, then, once the events that were already unread have been popped,
  the next three pops return A, B and C in that order (on an empty queue these are the
  very next three pops).
\<close>

theorem fifo_order:
  "delivered ops PTEventQueue_init
     = take (length (delivered ops PTEventQueue_init)) (accepted ops PTEventQueue_init) \<and>
   (let q = run_ops ops PTEventQueue_init;
        q1 = snd (push A q); q2 = snd (push B q1); q3 = snd (push C q2)
    in fst (push A q) \<and> fst (push B q1) \<and> fst (push C q2) \<longrightarrow>
       drop (unat (count q)) (delivered (replicate (unat (count q) + 3) Pop) q3) = [A, B, C])"
proof -
  have "unread PTEventQueue_init = []" by (simp add: unread_def PTEventQueue_init_def)
  with fifo_general[OF queue_inv_init, of ops]
  have "accepted ops PTEventQueue_init
      = delivered ops PTEventQueue_init @ unread (run_ops ops PTEventQueue_init)" by simp
  then have g: "delivered ops PTEventQueue_init
     = take (length (delivered ops PTEventQueue_init)) (accepted ops PTEventQueue_init)" by simp
  define q where "q = run_ops ops PTEventQueue_init"
  define q1 where "q1 = snd (push A q)"
  define q2 where "q2 = snd (push B q1)"
  define q3 where "q3 = snd (push C q2)"
  have i: "queue_inv q" unfolding q_def by (rule run_ops_inv) (rule queue_inv_init)
  have "drop (unat (count q)) (delivered (replicate (unat (count q) + 3) Pop) q3) = [A, B, C]"
    if a: "fst (push A q)" and b: "fst (push B q1)" and c: "fst (push C q2)"
  proof -
    from a have a': "count q < MAX_EVENTS" by (simp add: push_fst_iff)
    from b have b': "count q1 < MAX_EVENTS" by (simp add: push_fst_iff)
    from c have c': "count q2 < MAX_EVENTS" by (simp add: push_fst_iff)
    have i1: "queue_inv q1" unfolding q1_def using i a' by (rule push_ok)
    have i2: "queue_inv q2" unfolding q2_def using i1 b' by (rule push_ok)
    have i3: "queue_inv q3" unfolding q3_def using i2 c' by (rule push_ok)
    have u: "unread q3 = unread q @ [A, B, C]"
      unfolding q3_def q2_def q1_def
      using push_ok(3)[OF i a'] push_ok(3)[OF i1 b'] push_ok(3)[OF i2 c']
      by (simp add: q1_def q2_def)
    have n: "unat (count q3) = unat (count q) + 3"
      using length_unread[of q3] length_unread[of q] u by simp
    have "delivered (replicate (unat (count q) + 3) Pop) q3 = take (unat (count q) + 3) (unread q3)"
      using i3 n by (intro delivered_pops) simp_all
    then show ?thesis using u length_unread[of q] by simp
  qed
  then show ?thesis using g by (simp add: Let_def q_def q1_def q2_def q3_def)
qed

theorem fifo_order_witness:
  "(let q = run_ops [] PTEventQueue_init;
        A = PTEvent_make BUTTON_PRESS 1 10; B = PTEvent_make BUTTON_RELEASE 1 20;
        C = PTEvent_make ENCODER_TURN 5 30;
        q1 = snd (push A q); q2 = snd (push B q1); q3 = snd (push C q2)
    in fst (push A q) \<and> fst (push B q1) \<and> fst (push C q2) \<and>
       delivered [Pop, Pop, Pop] q3 = [A, B, C])"
proof -
  define A where "A = PTEvent_make BUTTON_PRESS 1 10"
  define B where "B = PTEvent_make BUTTON_RELEASE 1 20"
  define C where "C = PTEvent_make ENCODER_TURN 5 30"
  define q1 where "q1 = snd (push A PTEventQueue_init)"
  define q2 where "q2 = snd (push B q1)"
  define q3 where "q3 = snd (push C q2)"
  have c0: "count PTEventQueue_init = 0" by (simp add: PTEventQueue_init_def)
  have c1: "count q1 = 1" by (simp add: q1_def push_def c0 MAX_EVENTS_def)
  have c2: "count q2 = 2"
    by (simp add: q2_def push_def c1 MAX_EVENTS_def word_le_nat_alt)
  have p1: "fst (push A PTEventQueue_init)" by (simp add: push_fst_iff c0 MAX_EVENTS_def)
  have p2: "fst (push B q1)" by (simp add: push_fst_iff c1 MAX_EVENTS_def word_less_nat_alt)
  have p3: "fst (push C q2)" by (simp add: push_fst_iff c2 MAX_EVENTS_def)
  have r: "replicate 3 Pop = [Pop, Pop, Pop]"
    by (simp add: numeral_3_eq_3)
  from fifo_order [of "[]" A B C] p1 p2 p3
  have "delivered [Pop, Pop, Pop] q3 = [A, B, C]"
    by (simp add: Let_def c0 r q1_def q2_def q3_def del: delivered.simps)
  with p1 p2 p3 show ?thesis
    by (simp add: Let_def A_def B_def C_def q1_def q2_def q3_def del: delivered.simps)
qed

text \<open>
  C8. For every sequence of push and pop calls on a queue that starts empty, after each
  step (each prefix of the sequence) \<open>count\<close> is at most the capacity, and, read as a
  number, equals the number of successful pushes minus the number of successful pops, so
  it never wraps below 0.
\<close>

theorem count_bounds_and_balance:
  "count (run_ops (take n ops) PTEventQueue_init) \<le> MAX_EVENTS \<and>
   int (unat (count (run_ops (take n ops) PTEventQueue_init)))
     = int (pushes_ok (take n ops) PTEventQueue_init)
       - int (pops_ok (take n ops) PTEventQueue_init)"
proof -
  have "queue_inv (run_ops (take n ops) PTEventQueue_init)"
    by (rule run_ops_inv) (rule queue_inv_init)
  then have "count (run_ops (take n ops) PTEventQueue_init) \<le> MAX_EVENTS"
    by (simp add: queue_inv_def)
  moreover have "count PTEventQueue_init = 0" by (simp add: PTEventQueue_init_def)
  with count_general[OF queue_inv_init, of "take n ops"]
  have "unat (count (run_ops (take n ops) PTEventQueue_init)) + pops_ok (take n ops) PTEventQueue_init
      = pushes_ok (take n ops) PTEventQueue_init" by simp
  ultimately show ?thesis by linarith
qed

end
